theory Spec2Isabelle
  imports Main "HOL-Library.Sublist" "HOL-Library.AList" "HOL-Library.Multiset"
begin

section \<open>URL normalizer\<close>

text \<open>
  \<^verbatim>\<open>clean_url(url) = re.sub(r'^https?://', '', url)\<close> (GETdns.py, lines 15-16).

  The pattern is a caret followed by literal characters and one optional character.
  \<open>re_item\<close> holds the two kinds of atom the pattern uses; \<open>re_match\<close> matches a
  sequence of atoms at the front of the input and returns the rest of the input after
  the match. An optional atom is greedy and backtracks, as in Python.
\<close>

datatype re_item = Chr char | Opt char

fun re_match :: "re_item list \<Rightarrow> string \<Rightarrow> string option" where
  "re_match [] s = Some s"
| "re_match (Chr c # r) [] = None"
| "re_match (Chr c # r) (x # xs) = (if x = c then re_match r xs else None)"
| "re_match (Opt c # r) [] = re_match r []"
| "re_match (Opt c # r) (x # xs) =
     (if x = c
      then (case re_match r xs of Some t \<Rightarrow> Some t | None \<Rightarrow> re_match r (x # xs))
      else re_match r (x # xs))"

text \<open>
  \<open>re.sub\<close> with a pattern that starts with a caret and no MULTILINE flag: the caret
  holds at index 0 only, so the one position where a match can begin is the start of
  the string. A match there is replaced; the search then goes on from a position
  greater than 0, where the caret never holds, and the rest is copied as it is.
\<close>

definition re_sub_caret :: "re_item list \<Rightarrow> string \<Rightarrow> string \<Rightarrow> string" where
  "re_sub_caret pat repl s =
     (case re_match pat s of Some rest \<Rightarrow> repl @ rest | None \<Rightarrow> s)"

definition scheme_pattern :: "re_item list" where
  "scheme_pattern = map Chr ''http'' @ [Opt CHR ''s''] @ map Chr ''://''"

definition clean_url :: "string \<Rightarrow> string" where
  "clean_url url = re_sub_caret scheme_pattern [] url"

section \<open>Resolver client\<close>

text \<open>
  The DNS library is outside the program. One call of \<^verbatim>\<open>dns.resolver.resolve\<close>
  either returns the answer (here already the texts of its records) or raises; the
  program tells the exception \<^verbatim>\<open>NoAnswer\<close> from every other one. A \<open>resolver\<close>
  gives the outcome of a call from the domain, the record type, the lifetime passed
  and the index of the loop iteration in which the call is made, so the network may
  answer differently from one attempt to the next.
\<close>

datatype rdtype = A | AAAA

datatype dns_error = NoAnswer | NXDOMAIN | LifetimeTimeout | NoNameservers | NetworkError

type_synonym resolver = "string \<Rightarrow> rdtype \<Rightarrow> nat \<Rightarrow> nat \<Rightarrow> dns_error + string list"

text \<open>What a call of \<open>query_dns\<close> does besides returning: its lookups and its sleeps.\<close>

datatype event = Lookup string rdtype nat | Sleep nat

text \<open>
  The body of the loop \<^verbatim>\<open>for attempt in range(retries)\<close> of \<open>query_dns\<close>
  (GETdns.py, lines 20-33), over the attempts that are left. The result is the list
  returned and the events in the order they happen.
\<close>

fun query_attempts :: "resolver \<Rightarrow> string \<Rightarrow> nat \<Rightarrow> nat list \<Rightarrow> string list \<times> event list" where
  "query_attempts rs domain delay [] = ([], [])"
| "query_attempts rs domain delay (attempt # rest) =
     (case rs domain A 10 attempt of
        Inr answers \<Rightarrow> (answers, [Lookup domain A 10])
      | Inl NoAnswer \<Rightarrow>
          (case rs domain AAAA 10 attempt of
             Inr answers \<Rightarrow> (answers, [Lookup domain A 10, Lookup domain AAAA 10])
           | Inl e \<Rightarrow> ([], [Lookup domain A 10, Lookup domain AAAA 10]))
      | Inl e \<Rightarrow>
          (case query_attempts rs domain delay rest of
             (r, evs) \<Rightarrow> (r, Lookup domain A 10 # Sleep delay # evs)))"

definition query_dns :: "resolver \<Rightarrow> string \<Rightarrow> nat \<Rightarrow> nat \<Rightarrow> string list \<times> event list" where
  "query_dns rs domain retries delay = query_attempts rs domain delay [0..<retries]"

fun sleep_time :: "event \<Rightarrow> nat" where
  "sleep_time (Sleep d) = d"
| "sleep_time (Lookup domain ty lifetime) = 0"

definition total_sleep :: "event list \<Rightarrow> nat" where
  "total_sleep evs = sum_list (map sleep_time evs)"

fun is_A_lookup :: "event \<Rightarrow> bool" where
  "is_A_lookup (Lookup domain A lifetime) = True"
| "is_A_lookup e = False"

fun is_sleep :: "event \<Rightarrow> bool" where
  "is_sleep (Sleep d) = True"
| "is_sleep e = False"

section \<open>Frequency aggregator\<close>

text \<open>
  \<^verbatim>\<open>collections.Counter\<close>: a dictionary that keeps its keys in insertion order and
  reads a missing key as 0. An association list keeps the order, which the stable
  sort of the report writer sees.
\<close>

type_synonym counter = "(string \<times> int) list"

definition counter_get :: "counter \<Rightarrow> string \<Rightarrow> int" where
  "counter_get c ip = (case map_of c ip of None \<Rightarrow> 0 | Some n \<Rightarrow> n)"

definition counter_set :: "counter \<Rightarrow> string \<Rightarrow> int \<Rightarrow> counter" where
  "counter_set c ip n = AList.update ip n c"

section \<open>Worker pool orchestrator\<close>

datatype py_error =
  ValueError | PermissionError | FileNotFoundError | FileExistsError
  | NotADirectoryError | IsADirectoryError | OSError

datatype console_line =
  LogRecord string string
  | ReadFailed py_error
  | WriteFailed py_error
  | TaskDone
  | SavedTo string
  | Elapsed

text \<open>
  One call \<^verbatim>\<open>process_url(url, output_counter, lock)\<close> (lines 36-47) runs in a worker
  thread. Its progress is a \<open>task\<close>:
  \<^item> \<open>Queued url\<close>: submitted, no worker has taken it;
  \<^item> \<open>Resolved domain a_records\<close>: lines 38-40 are done with a non-empty
    \<open>a_records\<close>, the thread waits for the lock;
  \<^item> \<open>InLoop domain ips\<close>: the thread holds the lock, \<open>ips\<close> are the records the
    \<^verbatim>\<open>for\<close> loop has still to visit;
  \<^item> \<open>Loaded domain ip n ips\<close>: inside \<^verbatim>\<open>output_counter[ip] += 1\<close>, the thread
    has read the count \<open>n\<close> of \<open>ip\<close> and has not stored \<open>n + 1\<close> yet;
  \<^item> \<open>Finished\<close>: the call has returned.
\<close>

datatype task =
  Queued string
  | Resolved string "string list"
  | InLoop string "string list"
  | Loaded string string int "string list"
  | Finished

record pool =
  tasks :: "task list"
  output_counter :: counter
  lock :: "nat option"
  console :: "console_line list"

fun running :: "task \<Rightarrow> bool" where
  "running (Queued url) = False"
| "running (Resolved domain a_records) = True"
| "running (InLoop domain ips) = True"
| "running (Loaded domain ip n ips) = True"
| "running Finished = False"

definition active :: "task list \<Rightarrow> nat" where
  "active ts = length (filter running ts)"

text \<open>
  One step of the thread of task \<open>i\<close>. A queued task starts when a worker is free,
  that is when fewer than \<open>max_workers\<close> tasks are running; the lookup touches nothing
  shared, so it is one step. \<^verbatim>\<open>with lock\<close> is taken when the lock is free. The
  increment is two steps, the read and the store; the store is followed by the
  \<^verbatim>\<open>print\<close> of line 45. A thread that cannot move leaves the state as it is.
  Any queued task may be the next to start: the order in which the queue of the
  executor hands tasks to its workers is left open. \<open>dns i\<close> is the resolver as task
  \<open>i\<close> sees it.
\<close>

fun task_step :: "(nat \<Rightarrow> resolver) \<Rightarrow> nat \<Rightarrow> nat \<Rightarrow> task \<Rightarrow> pool \<Rightarrow> pool" where
  "task_step dns max_workers i (Queued url) st =
     (if active (tasks st) < max_workers
      then (let domain = clean_url url;
                a_records = fst (query_dns (dns i) domain 5 2)
            in st\<lparr>tasks := (tasks st)[i := (if a_records \<noteq> [] then Resolved domain a_records
                                           else Finished)]\<rparr>)
      else st)"
| "task_step dns max_workers i (Resolved domain a_records) st =
     (case lock st of
        None \<Rightarrow> st\<lparr>tasks := (tasks st)[i := InLoop domain a_records], lock := Some i\<rparr>
      | Some holder \<Rightarrow> st)"
| "task_step dns max_workers i (InLoop domain []) st =
     st\<lparr>tasks := (tasks st)[i := Finished], lock := None\<rparr>"
| "task_step dns max_workers i (InLoop domain (ip # ips)) st =
     st\<lparr>tasks := (tasks st)[i := Loaded domain ip (counter_get (output_counter st) ip) ips]\<rparr>"
| "task_step dns max_workers i (Loaded domain ip n ips) st =
     st\<lparr>tasks := (tasks st)[i := InLoop domain ips],
        output_counter := counter_set (output_counter st) ip (n + 1),
        console := console st @ [LogRecord domain ip]\<rparr>"
| "task_step dns max_workers i Finished st = st"

definition step :: "(nat \<Rightarrow> resolver) \<Rightarrow> nat \<Rightarrow> nat \<Rightarrow> pool \<Rightarrow> pool" where
  "step dns max_workers i st =
     (if i < length (tasks st) then task_step dns max_workers i (tasks st ! i) st else st)"

text \<open>
  A schedule is the list of the threads that move, in order; it stands for the
  interleaving the operating system chooses. The executor returns when every task has
  finished, so a schedule is followed by fair rounds over all threads until nothing
  is left to do. \<open>work_left\<close> bounds the number of moves the tasks can still make.
\<close>

fun weight :: "(nat \<Rightarrow> resolver) \<Rightarrow> nat \<Rightarrow> task \<Rightarrow> nat" where
  "weight dns i (Queued url) = 3 + 2 * length (fst (query_dns (dns i) (clean_url url) 5 2))"
| "weight dns i (Resolved domain a_records) = 2 + 2 * length a_records"
| "weight dns i (InLoop domain ips) = 1 + 2 * length ips"
| "weight dns i (Loaded domain ip n ips) = 2 + 2 * length ips"
| "weight dns i Finished = 0"

definition work_left :: "(nat \<Rightarrow> resolver) \<Rightarrow> task list \<Rightarrow> nat" where
  "work_left dns ts = (\<Sum>i < length ts. weight dns i (ts ! i))"

definition round_robin :: "(nat \<Rightarrow> resolver) \<Rightarrow> nat \<Rightarrow> pool \<Rightarrow> pool" where
  "round_robin dns max_workers st = fold (step dns max_workers) [0..<length (tasks st)] st"

fun rounds :: "(nat \<Rightarrow> resolver) \<Rightarrow> nat \<Rightarrow> nat \<Rightarrow> pool \<Rightarrow> pool" where
  "rounds dns max_workers 0 st = st"
| "rounds dns max_workers (Suc k) st = rounds dns max_workers k (round_robin dns max_workers st)"

definition run_to_completion :: "(nat \<Rightarrow> resolver) \<Rightarrow> nat \<Rightarrow> pool \<Rightarrow> pool" where
  "run_to_completion dns max_workers st = rounds dns max_workers (work_left dns (tasks st)) st"

definition all_finished :: "pool \<Rightarrow> bool" where
  "all_finished st = list_all (\<lambda>t. t = Finished) (tasks st)"

text \<open>
  \<^verbatim>\<open>ThreadPoolExecutor(max_workers)\<close> raises \<^verbatim>\<open>ValueError\<close> when
  \<^verbatim>\<open>max_workers <= 0\<close>; otherwise the pool runs at most that many threads.
\<close>

definition thread_pool_executor :: "int \<Rightarrow> py_error + nat" where
  "thread_pool_executor max_workers =
     (if max_workers \<le> 0 then Inl ValueError else Inr (nat max_workers))"

definition initial_pool :: "string list \<Rightarrow> counter \<Rightarrow> pool" where
  "initial_pool urls c =
     \<lparr>tasks = map Queued urls, output_counter = c, lock = None, console = []\<rparr>"

text \<open>
  The body of \<open>process_urls_concurrently\<close> (lines 51-61) with what it leaves behind:
  the number of workers of the pool that line 53 builds from the \<open>max_threads\<close> of
  line 51, and the state of the tasks when the \<^verbatim>\<open>with\<close> block is left. The
  constructor of the pool is not inside a \<^verbatim>\<open>try\<close>, so its error leaves the
  function. No call of \<open>process_url\<close> raises, so \<^verbatim>\<open>future.result()\<close> has
  nothing to swallow.
\<close>

definition run_executor ::
  "(nat \<Rightarrow> resolver) \<Rightarrow> nat list \<Rightarrow> string list \<Rightarrow> int \<Rightarrow> counter
     \<Rightarrow> py_error + nat \<times> pool" where
  "run_executor dns sched urls max_threads c =
     (case thread_pool_executor (min max_threads (int (length urls))) of
        Inl e \<Rightarrow> Inl e
      | Inr workers \<Rightarrow>
          Inr (workers,
               run_to_completion dns workers
                 (fold (step dns workers) sched (initial_pool urls c))))"

text \<open>
  \<open>process_urls_concurrently\<close> (lines 50-61) as its caller sees it: the counter it has
  filled and the lines printed, or the error.
\<close>

definition process_urls_concurrently ::
  "(nat \<Rightarrow> resolver) \<Rightarrow> nat list \<Rightarrow> string list \<Rightarrow> int \<Rightarrow> counter
     \<Rightarrow> py_error + counter \<times> console_line list" where
  "process_urls_concurrently dns sched urls max_threads c =
     (case run_executor dns sched urls max_threads c of
        Inl e \<Rightarrow> Inl e
      | Inr (workers, st) \<Rightarrow> Inr (output_counter st, console st))"

section \<open>Report writer\<close>

text \<open>
  The file system is outside the program: \<open>os_env\<close> gives the outcome of each call the
  program makes (\<open>None\<close>: the call returns; \<open>Some e\<close>: it raises \<open>e\<close>). The \<open>k\<close>-th call
  of \<^verbatim>\<open>f.write\<close> has the outcome \<open>write_call k\<close>. The files are a map from a path to
  the chunks written to it.
\<close>

record os_env =
  path_exists :: "string \<Rightarrow> bool"
  makedirs :: "string \<Rightarrow> py_error option"
  open_w :: "string \<Rightarrow> py_error option"
  write_call :: "nat \<Rightarrow> py_error option"

type_synonym file_store = "string \<rightharpoonup> string list"

text \<open>\<^verbatim>\<open>os.path.dirname\<close> of \<^verbatim>\<open>posixpath\<close>.\<close>

definition dirname :: "string \<Rightarrow> string" where
  "dirname p =
     (let head = rev (dropWhile (\<lambda>c. c \<noteq> CHR ''/'') (rev p))
      in if head \<noteq> [] \<and> \<not> list_all (\<lambda>c. c = CHR ''/'') head
         then rev (dropWhile (\<lambda>c. c = CHR ''/'') (rev head))
         else head)"

text \<open>
  \<open>ensure_directory_exists\<close> (lines 64-67): the error of \<^verbatim>\<open>os.makedirs\<close> leaves the
  function; otherwise the result is the list of the directories it was asked to make.
\<close>

definition ensure_directory_exists :: "os_env \<Rightarrow> string \<Rightarrow> py_error + string list" where
  "ensure_directory_exists os file_path =
     (let directory = dirname file_path
      in if directory \<noteq> [] \<and> \<not> path_exists os directory
         then (case makedirs os directory of Some e \<Rightarrow> Inl e | None \<Rightarrow> Inr [directory])
         else Inr [])"

text \<open>\<^verbatim>\<open>str\<close> of an integer, and the line of the report (line 78) in UTF-8.\<close>

fun digits :: "nat \<Rightarrow> string" where
  "digits n = (if n < 10 then [char_of (48 + n)] else digits (n div 10) @ [char_of (48 + n mod 10)])"

definition str_int :: "int \<Rightarrow> string" where
  "str_int n = (if n < 0 then CHR ''-'' # digits (nat (- n)) else digits (nat n))"

definition label_address :: string where
  "label_address =
     [CHR 0xE5, CHR 0x9C, CHR 0xB0, CHR 0xE5, CHR 0x9D, CHR 0x80, CHR 0xEF, CHR 0xBC, CHR 0x9A]"

definition label_count :: string where
  "label_count =
     [CHR 0xE6, CHR 0x95, CHR 0xB0, CHR 0xE9, CHR 0x87, CHR 0x8F, CHR 0xEF, CHR 0xBC, CHR 0x9A]"

definition format_line :: "string \<times> int \<Rightarrow> string" where
  "format_line e =
     label_address @ fst e @ '' | '' @ label_count @ str_int (snd e) @ [CHR 0x0A]"

text \<open>
  \<^verbatim>\<open>sorted(items, key=lambda x: x[1], reverse=True)\<close>: CPython reverses the list,
  sorts it with its stable ascending sort and reverses the result, so equal counts
  keep the order of the items.
\<close>

definition sorted_desc :: "(string \<times> int) list \<Rightarrow> (string \<times> int) list" where
  "sorted_desc items = rev (sort_key snd (rev items))"

text \<open>
  The loop of lines 75-78 with \<open>k\<close> writes done and the chunks \<open>acc\<close> in the file. A
  write that raises ends the loop with the error.
\<close>

fun write_entries ::
  "(nat \<Rightarrow> py_error option) \<Rightarrow> nat \<Rightarrow> (string \<times> int) list \<Rightarrow> string list
     \<Rightarrow> py_error option \<times> string list" where
  "write_entries wr k [] acc = (None, acc)"
| "write_entries wr k ((ip, cnt) # rest) acc =
     (if cnt > 2
      then (case wr k of
              Some e \<Rightarrow> (Some e, acc)
            | None \<Rightarrow> write_entries wr (Suc k) rest (acc @ [format_line (ip, cnt)]))
      else write_entries wr k rest acc)"

text \<open>
  \<open>write_sorted_output\<close> (lines 70-80). Opening with mode \<^verbatim>\<open>'w'\<close> empties the file.
  Every exception of the body is caught and printed. The result is the files and the
  lines printed.
\<close>

definition write_sorted_output ::
  "os_env \<Rightarrow> file_store \<Rightarrow> counter \<Rightarrow> string \<Rightarrow> file_store \<times> console_line list" where
  "write_sorted_output os files c output_file =
     (let sorted_ips = sorted_desc c
      in case open_w os output_file of
           Some e \<Rightarrow> (files, [WriteFailed e])
         | None \<Rightarrow>
             (case write_entries (write_call os) 0 sorted_ips [] of
                (None, chunks) \<Rightarrow> (files(output_file \<mapsto> chunks), [])
              | (Some e, chunks) \<Rightarrow> (files(output_file \<mapsto> chunks), [WriteFailed e])))"

section \<open>Main\<close>

text \<open>
  \<open>main\<close> (lines 83-114) after the arguments are parsed. \<open>read_result\<close> is the outcome
  of lines 91-93: the stripped lines of the input file, or the exception. An exception
  that nothing catches ends the process (\<open>Uncaught\<close>); the traceback goes to the
  standard error stream, which line 12 has replaced by the null device.
\<close>

datatype exit_status = Exit0 | Exit1 | Uncaught py_error

record run_result =
  printed :: "console_line list"
  status :: exit_status
  files_after :: file_store

definition main ::
  "os_env \<Rightarrow> (nat \<Rightarrow> resolver) \<Rightarrow> nat list \<Rightarrow> file_store \<Rightarrow> py_error + string list \<Rightarrow> string \<Rightarrow> int
     \<Rightarrow> run_result" where
  "main os dns sched files read_result output threads =
     (case read_result of
        Inl e \<Rightarrow> \<lparr>printed = [ReadFailed e], status = Exit1, files_after = files\<rparr>
      | Inr urls \<Rightarrow>
          (case ensure_directory_exists os output of
             Inl e \<Rightarrow> \<lparr>printed = [], status = Uncaught e, files_after = files\<rparr>
           | Inr made \<Rightarrow>
               (case process_urls_concurrently dns sched urls threads [] of
                  Inl e \<Rightarrow> \<lparr>printed = [], status = Uncaught e, files_after = files\<rparr>
                | Inr (c, log) \<Rightarrow>
                    (case write_sorted_output os files c output of
                       (files', msgs) \<Rightarrow>
                         \<lparr>printed = log @ msgs @ [TaskDone, SavedTo output, Elapsed],
                          status = Exit0, files_after = files'\<rparr>))))"

section \<open>Notions used in the statements and proofs\<close>

text \<open>
  A lookup that fails and is retried: the A lookup of attempt \<open>k\<close> raises an exception
  other than \<^verbatim>\<open>NoAnswer\<close>.
\<close>

definition fails_retriably :: "resolver \<Rightarrow> string \<Rightarrow> nat \<Rightarrow> bool" where
  "fails_retriably rs domain k =
     (case rs domain A 10 k of Inl e \<Rightarrow> e \<noteq> NoAnswer | Inr answers \<Rightarrow> False)"

text \<open>
  \<open>recs dns i url\<close> is what \<open>query_dns\<close> returns to task \<open>i\<close>; \<open>pending\<close> is the list
  of the records a task has still to add to the counter.
\<close>

definition recs :: "(nat \<Rightarrow> resolver) \<Rightarrow> nat \<Rightarrow> string \<Rightarrow> string list" where
  "recs dns i url = fst (query_dns (dns i) (clean_url url) 5 2)"

fun pending :: "(nat \<Rightarrow> resolver) \<Rightarrow> nat \<Rightarrow> task \<Rightarrow> string list" where
  "pending dns i (Queued url) = recs dns i url"
| "pending dns i (Resolved domain a_records) = a_records"
| "pending dns i (InLoop domain ips) = ips"
| "pending dns i (Loaded domain ip n ips) = ip # ips"
| "pending dns i Finished = []"

text \<open>
  The invariant of the pool: the lock is held by exactly the task that is inside
  \<^verbatim>\<open>with lock\<close>, and a count that has been read and not stored yet is still the
  count in the counter.
\<close>

fun holds_lock :: "task \<Rightarrow> bool" where
  "holds_lock (InLoop domain ips) = True"
| "holds_lock (Loaded domain ip n ips) = True"
| "holds_lock t = False"

definition pool_inv :: "pool \<Rightarrow> bool" where
  "pool_inv st \<longleftrightarrow>
     (\<forall>i < length (tasks st). holds_lock (tasks st ! i) \<longleftrightarrow> lock st = Some i) \<and>
     (\<forall>h. lock st = Some h \<longrightarrow> h < length (tasks st)) \<and>
     (\<forall>i < length (tasks st). \<forall>domain ip n ips.
         tasks st ! i = Loaded domain ip n ips \<longrightarrow> n = counter_get (output_counter st) ip)"

text \<open>
  Two quantities that no step changes: for an address \<open>x\<close>, its count plus the number
  of times it is still pending; and the sum of all counts plus the number of pending
  records. \<open>isum f ts\<close> adds \<open>f j (ts ! j)\<close> over the positions \<open>j\<close> of \<open>ts\<close>.
\<close>

definition isum :: "(nat \<Rightarrow> 'a \<Rightarrow> int) \<Rightarrow> 'a list \<Rightarrow> int" where
  "isum f ts = (\<Sum>j < length ts. f j (ts ! j))"

definition counted :: "(nat \<Rightarrow> resolver) \<Rightarrow> pool \<Rightarrow> string \<Rightarrow> int" where
  "counted dns st x =
     counter_get (output_counter st) x + isum (\<lambda>j t. int (count_list (pending dns j t) x)) (tasks st)"

definition summed :: "(nat \<Rightarrow> resolver) \<Rightarrow> pool \<Rightarrow> int" where
  "summed dns st =
     sum_list (map snd (output_counter st)) + isum (\<lambda>j t. int (length (pending dns j t))) (tasks st)"

text \<open>
  The state in which \<open>process_urls_concurrently\<close> returns; a counter with distinct
  keys and counts of at least 1; the counter object after a call, which is the one
  passed in when the call raises; and whether a call returns.
\<close>

definition final_pool :: "(nat \<Rightarrow> resolver) \<Rightarrow> nat \<Rightarrow> nat list \<Rightarrow> string list \<Rightarrow> counter \<Rightarrow> pool" where
  "final_pool dns w sched urls c =
     run_to_completion dns w (fold (step dns w) sched (initial_pool urls c))"

definition counter_ok :: "counter \<Rightarrow> bool" where
  "counter_ok c \<longleftrightarrow> distinct (map fst c) \<and> (\<forall>e \<in> set c. 1 \<le> snd e)"

definition counter_after :: "counter \<Rightarrow> py_error + counter \<times> console_line list \<Rightarrow> counter" where
  "counter_after c r = (case r of Inl e \<Rightarrow> c | Inr (c', log) \<Rightarrow> c')"

definition returned :: "py_error + 'a \<Rightarrow> bool" where
  "returned r = (case r of Inl e \<Rightarrow> False | Inr v \<Rightarrow> True)"

text \<open>
  A pool in which nothing has been counted or printed and every task is still queued
  or has finished.
\<close>

definition quiet :: "string list \<Rightarrow> counter \<Rightarrow> pool \<Rightarrow> bool" where
  "quiet urls c st \<longleftrightarrow>
     output_counter st = c \<and> console st = [] \<and> lock st = None \<and>
     length (tasks st) = length urls \<and>
     (\<forall>j < length urls. tasks st ! j = Queued (urls ! j) \<or> tasks st ! j = Finished)"

text \<open>
  The entries that go to the report, and the error of the report step, if any: that
  of the opening, or that of the first write that fails among the writes the report
  needs.
\<close>

definition above_two :: "string \<times> int \<Rightarrow> bool" where
  "above_two e \<longleftrightarrow> 2 < snd e"

fun first_error :: "(nat \<Rightarrow> py_error option) \<Rightarrow> nat \<Rightarrow> nat \<Rightarrow> py_error option" where
  "first_error wr k 0 = None"
| "first_error wr k (Suc n) =
     (case wr k of Some e \<Rightarrow> Some e | None \<Rightarrow> first_error wr (Suc k) n)"

definition report_failure :: "os_env \<Rightarrow> counter \<Rightarrow> string \<Rightarrow> py_error option" where
  "report_failure os c output_file =
     (case open_w os output_file of
        Some e \<Rightarrow> Some e
      | None \<Rightarrow> first_error (write_call os) 0 (length (filter above_two c)))"

section \<open>Concrete inputs\<close>

text \<open>
  Resolvers: one that times out on every lookup, one whose A lookup fails twice and
  then reports no answer while AAAA succeeds, one that reports no answer to every
  lookup, and one that knows two hosts. Operating systems: one on which everything
  succeeds, one that refuses to make directories, one that refuses to open the output
  file, and one on which every write fails.
\<close>

definition timeout_resolver :: resolver where
  "timeout_resolver domain ty lifetime attempt = Inl LifetimeTimeout"

definition timeout_dns :: "nat \<Rightarrow> resolver" where
  "timeout_dns i = timeout_resolver"

definition flaky_v6_resolver :: resolver where
  "flaky_v6_resolver domain ty lifetime attempt =
     (if ty = AAAA then Inr [''2001:db8::1'']
      else if attempt < 2 then Inl NoNameservers else Inl NoAnswer)"

definition no_records_resolver :: resolver where
  "no_records_resolver domain ty lifetime attempt = Inl NoAnswer"

definition two_hosts_dns :: "nat \<Rightarrow> resolver" where
  "two_hosts_dns i domain ty lifetime attempt =
     (if ty = A \<and> domain = ''a.example'' then Inr [''10.0.0.1'']
      else if ty = A \<and> domain = ''b.example'' then Inr [''10.0.0.2'']
      else Inl NXDOMAIN)"

definition writable_os :: os_env where
  "writable_os =
     \<lparr>path_exists = (\<lambda>p. True), makedirs = (\<lambda>p. None), open_w = (\<lambda>p. None),
      write_call = (\<lambda>k. None)\<rparr>"

definition locked_dir_os :: os_env where
  "locked_dir_os =
     \<lparr>path_exists = (\<lambda>p. False), makedirs = (\<lambda>p. Some PermissionError),
      open_w = (\<lambda>p. None), write_call = (\<lambda>k. None)\<rparr>"

definition readonly_os :: os_env where
  "readonly_os =
     \<lparr>path_exists = (\<lambda>p. True), makedirs = (\<lambda>p. None),
      open_w = (\<lambda>p. Some PermissionError), write_call = (\<lambda>k. None)\<rparr>"

definition full_disk_os :: os_env where
  "full_disk_os =
     \<lparr>path_exists = (\<lambda>p. True), makedirs = (\<lambda>p. None),
      open_w = (\<lambda>p. None), write_call = (\<lambda>k. Some OSError)\<rparr>"

definition sample_counter :: counter where
  "sample_counter =
     [(''10.0.0.1'', 3), (''10.0.0.2'', 1), (''10.0.0.3'', 5), (''10.0.0.4'', 2), (''10.0.0.5'', 3)]"

definition low_counter :: counter where
  "low_counter = [(''10.0.0.1'', 2), (''10.0.0.2'', 1)]"

definition old_files :: file_store where
  "old_files = [''report.txt'' \<mapsto> [''stale line'']]"

section \<open>Properties of the URL normalizer\<close>

lemma clean_url_http: "clean_url (''http://'' @ r) = r"
  by (simp add: clean_url_def re_sub_caret_def scheme_pattern_def)

lemma clean_url_https: "clean_url (''https://'' @ r) = r"
  by (simp add: clean_url_def re_sub_caret_def scheme_pattern_def)

lemma re_match_Chr:
  "re_match (Chr c # r) s = Some t \<longleftrightarrow> (\<exists>xs. s = c # xs \<and> re_match r xs = Some t)"
  by (cases s) auto

lemma re_match_Opt:
  "re_match (Opt c # r) s = Some t \<Longrightarrow>
     (\<exists>xs. s = c # xs \<and> re_match r xs = Some t) \<or> re_match r s = Some t"
  by (cases s) (auto split: option.splits if_splits)

lemma re_match_scheme_Some:
  assumes "re_match scheme_pattern s = Some t"
  shows "s = ''http://'' @ t \<or> s = ''https://'' @ t"
proof -
  from assms obtain u where s: "s = ''http'' @ u"
    and u: "re_match (Opt CHR ''s'' # map Chr ''://'') u = Some t"
    by (auto simp: scheme_pattern_def re_match_Chr simp del: re_match.simps)
  from re_match_Opt [OF u] show ?thesis
    using s by (auto simp: re_match_Chr simp del: re_match.simps(2,3))
qed

lemma clean_url_other:
  assumes "\<not> prefix ''http://'' s" and "\<not> prefix ''https://'' s"
  shows "clean_url s = s"
proof (cases "re_match scheme_pattern s")
  case None
  then show ?thesis by (simp add: clean_url_def re_sub_caret_def)
next
  case (Some t)
  from re_match_scheme_Some [OF Some] assms show ?thesis
    by (auto simp: prefix_def)
qed

text \<open>
  Claim C6. For every input line the normalizer removes one leading \<open>http://\<close> or
  \<open>https://\<close> (lower case, at the start of the line) and nothing more, and a line
  that starts with neither comes back unchanged. The normalizer is a total function:
  it has no failing branch.
\<close>

theorem clean_url_strips_one_scheme:
  "clean_url (''http://'' @ r) = r \<and>
   clean_url (''https://'' @ r) = r \<and>
   (\<not> prefix ''http://'' s \<and> \<not> prefix ''https://'' s \<longrightarrow> clean_url s = s)"
  using clean_url_http clean_url_https clean_url_other by blast

theorem clean_url_strips_one_scheme_witness:
  "clean_url (''http://'' @ ''http://example.com'') = ''http://example.com'' \<and>
   clean_url (''https://'' @ ''example.com'') = ''example.com'' \<and>
   \<not> prefix ''http://'' ''HTTP://example.com'' \<and>
   \<not> prefix ''https://'' ''HTTP://example.com'' \<and>
   clean_url ''HTTP://example.com'' = ''HTTP://example.com''"
  using clean_url_strips_one_scheme [of "''http://example.com''" "''HTTP://example.com''"]
    clean_url_strips_one_scheme [of "''example.com''" "''HTTP://example.com''"]
  by simp

section \<open>Properties of the resolver client\<close>

lemma query_attempts_all_fail:
  "(\<forall>k \<in> set ks. fails_retriably rs d k) \<Longrightarrow>
     query_attempts rs d delay ks = ([], concat (map (\<lambda>k. [Lookup d A 10, Sleep delay]) ks))"
  by (induction ks) (auto simp: fails_retriably_def split: sum.splits dns_error.splits)

lemma query_attempts_fail_prefix:
  "(\<forall>k \<in> set js. fails_retriably rs d k) \<Longrightarrow>
     query_attempts rs d delay (js @ ks) =
       (fst (query_attempts rs d delay ks),
        concat (map (\<lambda>k. [Lookup d A 10, Sleep delay]) js) @ snd (query_attempts rs d delay ks))"
  by (induction js) (auto simp: fails_retriably_def split: sum.splits dns_error.splits prod.splits)

lemma query_attempts_A_lookups:
  "length (filter is_A_lookup (snd (query_attempts rs d delay ks))) \<le> length ks"
  by (induction ks) (auto split: sum.splits dns_error.splits prod.splits)

lemma query_dns_all_fail:
  assumes "\<forall>k<5. fails_retriably rs domain k"
  shows "query_dns rs domain 5 2 =
       ([], [Lookup domain A 10, Sleep 2, Lookup domain A 10, Sleep 2, Lookup domain A 10, Sleep 2,
             Lookup domain A 10, Sleep 2, Lookup domain A 10, Sleep 2])"
proof -
  have "\<forall>k \<in> set [0..<5]. fails_retriably rs domain k"
    using assms by simp
  from query_attempts_all_fail [OF this, of 2] show ?thesis
    by (simp add: query_dns_def upt_rec)
qed

text \<open>
  Claim C3. When every one of the five A lookups of a domain fails with an error other
  than "no answer", \<open>query_dns\<close> makes exactly five A lookups with lifetime 10, sleeps 2
  after a failed lookup before it goes on, makes no other lookup, and returns the empty
  list; its result is a list, it raises nothing. For any resolver the number of A
  lookups is at most 5.
\<close>

theorem query_dns_retries_exhausted:
  "((\<forall>k<5. fails_retriably rs domain k) \<longrightarrow>
      query_dns rs domain 5 2 =
        ([], [Lookup domain A 10, Sleep 2, Lookup domain A 10, Sleep 2, Lookup domain A 10, Sleep 2,
              Lookup domain A 10, Sleep 2, Lookup domain A 10, Sleep 2])) \<and>
   length (filter is_A_lookup (snd (query_dns rs' domain' 5 2))) \<le> 5"
  using query_dns_all_fail [of rs domain] query_attempts_A_lookups [of rs' domain' 2 "[0..<5]"]
  by (simp add: query_dns_def)

theorem query_dns_retries_exhausted_witness:
  "fails_retriably timeout_resolver ''slow.example'' 0 \<and>
   fails_retriably timeout_resolver ''slow.example'' 1 \<and>
   fails_retriably timeout_resolver ''slow.example'' 2 \<and>
   fails_retriably timeout_resolver ''slow.example'' 3 \<and>
   fails_retriably timeout_resolver ''slow.example'' 4 \<and>
   query_dns timeout_resolver ''slow.example'' 5 2 =
     ([], [Lookup ''slow.example'' A 10, Sleep 2, Lookup ''slow.example'' A 10, Sleep 2,
           Lookup ''slow.example'' A 10, Sleep 2, Lookup ''slow.example'' A 10, Sleep 2,
           Lookup ''slow.example'' A 10, Sleep 2]) \<and>
   length (filter is_A_lookup (snd (query_dns flaky_v6_resolver ''v6.example'' 5 2))) \<le> 5"
proof -
  have h: "fails_retriably timeout_resolver ''slow.example'' k" for k
    by (simp add: fails_retriably_def timeout_resolver_def)
  then have "\<forall>k<5. fails_retriably timeout_resolver ''slow.example'' k"
    by simp
  then show ?thesis
    using h query_dns_retries_exhausted [of timeout_resolver "''slow.example''"
        flaky_v6_resolver "''v6.example''"]
    by blast
qed

text \<open>
  Claim C4. When the A lookup of attempt \<open>k\<close> reports "no answer" (the attempts before
  it having failed otherwise), \<open>query_dns\<close> makes one AAAA lookup with the same lifetime
  10 right after it, and that is its last event: no sleep, no further lookup. It
  returns the AAAA answer when that lookup succeeds and the empty list when it fails
  for whatever reason.
\<close>

theorem query_dns_no_answer_fallback:
  assumes "k < 5"
    and "\<forall>j<k. fails_retriably rs domain j"
    and "rs domain A 10 k = Inl NoAnswer"
  shows "query_dns rs domain 5 2 =
           ((case rs domain AAAA 10 k of Inr answers \<Rightarrow> answers | Inl e \<Rightarrow> []),
            concat (replicate k [Lookup domain A 10, Sleep 2])
              @ [Lookup domain A 10, Lookup domain AAAA 10])"
proof -
  have split: "[0..<5] = [0..<k] @ k # [Suc k..<5]"
    using assms(1) by (metis less_imp_le_nat upt_add_eq_append upt_conv_Cons le0 le_add_diff_inverse)
  have pre: "\<forall>j \<in> set [0..<k]. fails_retriably rs domain j"
    using assms(2) by simp
  have rep: "concat (map (\<lambda>k. [Lookup domain A 10, Sleep 2]) [0..<k])
               = concat (replicate k [Lookup domain A 10, Sleep 2])"
    by (simp add: map_replicate_const)
  show ?thesis
    unfolding query_dns_def split query_attempts_fail_prefix [OF pre] rep
    using assms(3) by (simp split: sum.splits)
qed

theorem query_dns_no_answer_fallback_witness:
  "(0::nat) < 5 \<and> no_records_resolver ''mail.example'' A 10 0 = Inl NoAnswer \<and>
   query_dns no_records_resolver ''mail.example'' 5 2 =
     ([], [Lookup ''mail.example'' A 10, Lookup ''mail.example'' AAAA 10]) \<and>
   (2::nat) < 5 \<and> fails_retriably flaky_v6_resolver ''v6.example'' 0 \<and>
   fails_retriably flaky_v6_resolver ''v6.example'' 1 \<and>
   flaky_v6_resolver ''v6.example'' A 10 2 = Inl NoAnswer \<and>
   query_dns flaky_v6_resolver ''v6.example'' 5 2 =
     ([''2001:db8::1''],
      [Lookup ''v6.example'' A 10, Sleep 2, Lookup ''v6.example'' A 10, Sleep 2,
       Lookup ''v6.example'' A 10, Lookup ''v6.example'' AAAA 10])"
proof -
  have a: "no_records_resolver ''mail.example'' A 10 0 = Inl NoAnswer"
    by (simp add: no_records_resolver_def)
  have b: "\<forall>j<2. fails_retriably flaky_v6_resolver ''v6.example'' j"
    by (simp add: fails_retriably_def flaky_v6_resolver_def)
  have c: "flaky_v6_resolver ''v6.example'' A 10 2 = Inl NoAnswer"
    by (simp add: flaky_v6_resolver_def)
  have r1: "query_dns no_records_resolver ''mail.example'' 5 2 =
     ([], [Lookup ''mail.example'' A 10, Lookup ''mail.example'' AAAA 10])"
    using query_dns_no_answer_fallback [of 0 no_records_resolver "''mail.example''"] a
    by (simp add: no_records_resolver_def)
  have r2: "query_dns flaky_v6_resolver ''v6.example'' 5 2 =
     ([''2001:db8::1''],
      [Lookup ''v6.example'' A 10, Sleep 2, Lookup ''v6.example'' A 10, Sleep 2,
       Lookup ''v6.example'' A 10, Lookup ''v6.example'' AAAA 10])"
    using query_dns_no_answer_fallback [of 2 flaky_v6_resolver "''v6.example''"] b c
    by (simp add: flaky_v6_resolver_def numeral_2_eq_2)
  show ?thesis
    using a b c r1 r2 by simp
qed

section \<open>Properties of the worker pool\<close>

subsection \<open>The invariant of the pool\<close>

text \<open>Every step of every thread keeps the invariant, so every interleaving does.\<close>

lemma length_tasks_task_step [simp]:
  "length (tasks (task_step dns w i t st)) = length (tasks st)"
  by (induction dns w i t st rule: task_step.induct) (auto simp: Let_def split: option.splits)

lemma length_tasks_step [simp]: "length (tasks (step dns w i st)) = length (tasks st)"
  by (simp add: step_def)

lemma length_tasks_fold_step [simp]:
  "length (tasks (fold (step dns w) sched st)) = length (tasks st)"
  by (induction sched arbitrary: st) auto

lemma counter_get_set [simp]:
  "counter_get (counter_set c ip n) x = (if x = ip then n else counter_get c x)"
  by (simp add: counter_get_def counter_set_def update_conv')

lemma holder_unique:
  "pool_inv st \<Longrightarrow> i < length (tasks st) \<Longrightarrow> j < length (tasks st) \<Longrightarrow>
     holds_lock (tasks st ! i) \<Longrightarrow> holds_lock (tasks st ! j) \<Longrightarrow> i = j"
  by (auto simp: pool_inv_def)

lemma task_step_inv:
  assumes "pool_inv st" and "i < length (tasks st)" and "tasks st ! i = t"
  shows "pool_inv (task_step dns w i t st)"
  using assms
  apply (induction dns w i t st rule: task_step.induct)
       apply (auto simp: pool_inv_def Let_def nth_list_update split: option.splits)
  apply (metis holds_lock.simps(2) option.inject)
  done

lemma step_inv: "pool_inv st \<Longrightarrow> pool_inv (step dns w i st)"
  by (simp add: step_def task_step_inv)

lemma fold_step_inv: "pool_inv st \<Longrightarrow> pool_inv (fold (step dns w) sched st)"
  by (induction sched arbitrary: st) (auto simp: step_inv)

subsection \<open>What no step changes\<close>

text \<open>
  A step replaces one task. The store of a loaded count writes the count that is in
  the counter plus one, by the invariant, so the address moves from pending to
  counted and nothing is lost.
\<close>

lemma isum_upd:
  assumes "i < length ts"
  shows "isum f (ts[i := t]) = isum f ts - f i (ts ! i) + f i t"
proof -
  have i: "i \<in> {..<length ts}" using assms by simp
  have "(\<Sum>j \<in> {..<length ts} - {i}. f j (ts[i := t] ! j)) = (\<Sum>j \<in> {..<length ts} - {i}. f j (ts ! j))"
    by (rule sum.cong) auto
  then show ?thesis
    using assms by (simp add: isum_def sum.remove [OF _ i])
qed

lemma task_step_counted:
  assumes "pool_inv st" and "i < length (tasks st)" and "tasks st ! i = t"
  shows "counted dns (task_step dns w i t st) x = counted dns st x"
  using assms
  by (induction dns w i t st rule: task_step.induct)
     (auto simp: counted_def pool_inv_def Let_def isum_upd recs_def split: option.splits)

lemma step_counted: "pool_inv st \<Longrightarrow> counted dns (step dns w i st) x = counted dns st x"
  by (simp add: step_def task_step_counted)

lemma fold_step_counted:
  "pool_inv st \<Longrightarrow> counted dns (fold (step dns w) sched st) x = counted dns st x"
  by (induction sched arbitrary: st) (auto simp: step_inv step_counted)

lemma sum_list_counter_set:
  "sum_list (map snd (counter_set c ip (counter_get c ip + 1))) = sum_list (map snd c) + 1"
  by (induction c) (auto simp: counter_set_def counter_get_def)

lemma task_step_summed:
  assumes "pool_inv st" and "i < length (tasks st)" and "tasks st ! i = t"
  shows "summed dns (task_step dns w i t st) = summed dns st"
  using assms
  by (induction dns w i t st rule: task_step.induct)
     (auto simp: summed_def pool_inv_def Let_def isum_upd recs_def sum_list_counter_set split: option.splits)

lemma step_summed: "pool_inv st \<Longrightarrow> summed dns (step dns w i st) = summed dns st"
  by (simp add: step_def task_step_summed)

lemma fold_step_summed:
  "pool_inv st \<Longrightarrow> summed dns (fold (step dns w) sched st) = summed dns st"
  by (induction sched arbitrary: st) (auto simp: step_inv step_summed)

subsection \<open>The phase ends\<close>

text \<open>
  A step either leaves the state as it is or lowers \<open>work_left\<close>. While a task is
  unfinished some thread can move: the holder of the lock, else a thread waiting
  for the free lock, else a queued task, for which a worker is then free. So each
  fair round lowers \<open>work_left\<close>, and after \<open>work_left\<close> rounds every task has finished.
\<close>

lemma work_left_isum: "int (work_left dns ts) = isum (\<lambda>j t. int (weight dns j t)) ts"
  by (simp add: work_left_def isum_def)

lemma task_step_weight:
  assumes "i < length (tasks st)" and "tasks st ! i = t"
  shows "task_step dns w i t st = st \<or>
         work_left dns (tasks (task_step dns w i t st)) < work_left dns (tasks st)"
proof -
  have "task_step dns w i t st = st \<or>
        int (work_left dns (tasks (task_step dns w i t st))) < int (work_left dns (tasks st))"
    unfolding work_left_isum using assms
    by (induction dns w i t st rule: task_step.induct)
       (auto simp: Let_def isum_upd split: option.splits)
  then show ?thesis by simp
qed

lemma step_weight:
  "step dns w i st = st \<or> work_left dns (tasks (step dns w i st)) < work_left dns (tasks st)"
  using task_step_weight [of i st "tasks st ! i" dns w] by (auto simp: step_def)

lemma fold_step_weight_le:
  "work_left dns (tasks (fold (step dns w) xs st)) \<le> work_left dns (tasks st)"
proof (induction xs arbitrary: st)
  case Nil
  show ?case by simp
next
  case (Cons x xs)
  have "work_left dns (tasks (step dns w x st)) \<le> work_left dns (tasks st)"
    using step_weight [of dns w x st] by auto
  with Cons [of "step dns w x st"] show ?case by simp
qed

lemma fold_step_weight_eq:
  "work_left dns (tasks (fold (step dns w) xs st)) = work_left dns (tasks st)
     \<Longrightarrow> \<forall>i \<in> set xs. step dns w i st = st"
proof (induction xs arbitrary: st)
  case Nil
  show ?case by simp
next
  case (Cons x xs)
  have le: "work_left dns (tasks (fold (step dns w) xs (step dns w x st)))
              \<le> work_left dns (tasks (step dns w x st))"
    by (rule fold_step_weight_le)
  have same: "step dns w x st = st"
    using step_weight [of dns w x st] le Cons.prems by auto
  with Cons show ?case by simp
qed

lemma active_zero: "active ts = 0 \<longleftrightarrow> (\<forall>t \<in> set ts. \<not> running t)"
  by (auto simp: active_def filter_empty_conv)

lemma running_cases: "running t \<longleftrightarrow> holds_lock t \<or> (\<exists>d r. t = Resolved d r)"
  by (cases t) auto

lemma some_step_enabled:
  assumes inv: "pool_inv st" and nf: "\<not> all_finished st" and w: "0 < w"
  shows "\<exists>i < length (tasks st). step dns w i st \<noteq> st"
proof (cases "lock st")
  case (Some h)
  with inv have h: "h < length (tasks st)" and hl: "holds_lock (tasks st ! h)"
    by (auto simp: pool_inv_def)
  from hl have "tasks (step dns w h st) ! h \<noteq> tasks st ! h"
    using h by (cases "tasks st ! h" rule: holds_lock.cases; cases "pending dns h (tasks st ! h)")
               (auto simp: step_def)
  then show ?thesis using h by force
next
  case None
  with inv have nohold: "\<forall>i < length (tasks st). \<not> holds_lock (tasks st ! i)"
    by (auto simp: pool_inv_def)
  show ?thesis
  proof (cases "\<exists>i < length (tasks st). \<exists>d r. tasks st ! i = Resolved d r")
    case True
    then obtain i d r where i: "i < length (tasks st)" and t: "tasks st ! i = Resolved d r"
      by blast
    then have "lock (step dns w i st) \<noteq> lock st"
      using None by (simp add: step_def)
    then show ?thesis using i by force
  next
    case False
    with nohold have "\<forall>i < length (tasks st). \<not> running (tasks st ! i)"
      by (auto simp: running_cases)
    then have act: "active (tasks st) = 0"
      by (auto simp: active_zero in_set_conv_nth)
    from nf obtain i where i: "i < length (tasks st)" and t: "tasks st ! i \<noteq> Finished"
      by (auto simp: all_finished_def list_all_length)
    with nohold False obtain url where q: "tasks st ! i = Queued url"
      by (cases "tasks st ! i") auto
    have "tasks (step dns w i st) ! i \<noteq> tasks st ! i"
      using i q act w by (simp add: step_def Let_def)
    then show ?thesis using i by force
  qed
qed

lemma round_robin_inv: "pool_inv st \<Longrightarrow> pool_inv (round_robin dns w st)"
  by (simp add: round_robin_def fold_step_inv)

lemma round_robin_progress:
  assumes "pool_inv st" and "\<not> all_finished st" and "0 < w"
  shows "work_left dns (tasks (round_robin dns w st)) < work_left dns (tasks st)"
proof (rule ccontr)
  assume "\<not> ?thesis"
  with fold_step_weight_le [of dns w "[0..<length (tasks st)]" st]
  have "work_left dns (tasks (fold (step dns w) [0..<length (tasks st)] st)) = work_left dns (tasks st)"
    by (simp add: round_robin_def)
  from fold_step_weight_eq [OF this] have "\<forall>i < length (tasks st). step dns w i st = st"
    by simp
  with some_step_enabled [OF assms, of dns] show False by blast
qed

lemma step_finished: "all_finished st \<Longrightarrow> step dns w i st = st"
  by (auto simp: step_def all_finished_def list_all_length)

lemma round_robin_finished: "all_finished st \<Longrightarrow> round_robin dns w st = st"
proof -
  have "all_finished st \<Longrightarrow> fold (step dns w) xs st = st" for xs
    by (induction xs) (auto simp: step_finished)
  then show "all_finished st \<Longrightarrow> round_robin dns w st = st"
    by (simp add: round_robin_def)
qed

lemma rounds_finished: "all_finished st \<Longrightarrow> rounds dns w k st = st"
  by (induction k) (auto simp: round_robin_finished)

lemma rounds_complete:
  "pool_inv st \<Longrightarrow> 0 < w \<Longrightarrow> work_left dns (tasks st) \<le> k \<Longrightarrow> all_finished (rounds dns w k st)"
proof (induction k arbitrary: st)
  case 0
  show ?case
  proof (rule ccontr)
    assume "\<not> all_finished (rounds dns w 0 st)"
    then have "\<not> all_finished st" by simp
    from round_robin_progress [OF "0.prems"(1) this "0.prems"(2), of dns] "0.prems"(3)
    show False by simp
  qed
next
  case (Suc k)
  show ?case
  proof (cases "all_finished st")
    case True
    then show ?thesis by (simp add: rounds_finished del: rounds.simps)
  next
    case False
    from round_robin_progress [OF Suc.prems(1) False Suc.prems(2), of dns] Suc.prems(3)
    have "work_left dns (tasks (round_robin dns w st)) \<le> k" by simp
    from Suc.IH [OF round_robin_inv [OF Suc.prems(1)] Suc.prems(2) this]
    show ?thesis by simp
  qed
qed

lemma rounds_inv: "pool_inv st \<Longrightarrow> pool_inv (rounds dns w k st)"
  by (induction k arbitrary: st) (auto simp: round_robin_inv)

lemma run_to_completion_finished:
  "pool_inv st \<Longrightarrow> 0 < w \<Longrightarrow> all_finished (run_to_completion dns w st)"
  by (simp add: run_to_completion_def rounds_complete)

subsection \<open>The counter when the phase returns\<close>

lemma round_robin_counted:
  "pool_inv st \<Longrightarrow> counted dns (round_robin dns w st) x = counted dns st x"
  by (simp add: round_robin_def fold_step_counted)

lemma rounds_counted: "pool_inv st \<Longrightarrow> counted dns (rounds dns w k st) x = counted dns st x"
  by (induction k arbitrary: st) (auto simp: round_robin_inv round_robin_counted)

lemma round_robin_summed: "pool_inv st \<Longrightarrow> summed dns (round_robin dns w st) = summed dns st"
  by (simp add: round_robin_def fold_step_summed)

lemma rounds_summed: "pool_inv st \<Longrightarrow> summed dns (rounds dns w k st) = summed dns st"
  by (induction k arbitrary: st) (auto simp: round_robin_inv round_robin_summed)

lemma initial_pool_inv: "pool_inv (initial_pool urls c)"
  by (simp add: pool_inv_def initial_pool_def)

lemma final_pool_inv: "pool_inv (final_pool dns w sched urls c)"
  by (simp add: final_pool_def run_to_completion_def rounds_inv fold_step_inv initial_pool_inv)

lemma final_pool_finished: "0 < w \<Longrightarrow> all_finished (final_pool dns w sched urls c)"
  by (simp add: final_pool_def run_to_completion_finished fold_step_inv initial_pool_inv)

lemma isum_finished:
  assumes "all_finished st" and "\<And>j. f j Finished = 0"
  shows "isum f (tasks st) = 0"
  using assms by (auto simp: isum_def all_finished_def list_all_length)

lemma final_pool_counted:
  assumes "0 < w"
  shows "counter_get (output_counter (final_pool dns w sched urls c)) x =
           counter_get c x + (\<Sum>j < length urls. int (count_list (recs dns j (urls ! j)) x))"
proof -
  let ?st = "final_pool dns w sched urls c"
  have "counted dns ?st x = counted dns (initial_pool urls c) x"
    by (simp add: final_pool_def run_to_completion_def rounds_counted fold_step_counted
        fold_step_inv initial_pool_inv)
  moreover have "counted dns ?st x = counter_get (output_counter ?st) x"
    by (simp add: counted_def isum_finished [OF final_pool_finished [OF assms]])
  moreover have "counted dns (initial_pool urls c) x =
      counter_get c x + (\<Sum>j < length urls. int (count_list (recs dns j (urls ! j)) x))"
    by (simp add: counted_def initial_pool_def isum_def)
  ultimately show ?thesis by simp
qed

lemma final_pool_summed:
  assumes "0 < w"
  shows "sum_list (map snd (output_counter (final_pool dns w sched urls c))) =
           sum_list (map snd c) + (\<Sum>j < length urls. int (length (recs dns j (urls ! j))))"
proof -
  let ?st = "final_pool dns w sched urls c"
  have "summed dns ?st = summed dns (initial_pool urls c)"
    by (simp add: final_pool_def run_to_completion_def rounds_summed fold_step_summed
        fold_step_inv initial_pool_inv)
  moreover have "summed dns ?st = sum_list (map snd (output_counter ?st))"
    by (simp add: summed_def isum_finished [OF final_pool_finished [OF assms]])
  moreover have "summed dns (initial_pool urls c) =
      sum_list (map snd c) + (\<Sum>j < length urls. int (length (recs dns j (urls ! j))))"
    by (simp add: summed_def initial_pool_def isum_def)
  ultimately show ?thesis by simp
qed

lemma run_executor_Inr:
  assumes "1 \<le> min max_threads (int (length urls))"
  shows "run_executor dns sched urls max_threads c =
       Inr (nat (min max_threads (int (length urls))),
            final_pool dns (nat (min max_threads (int (length urls)))) sched urls c)"
proof -
  have "\<not> min max_threads (int (length urls)) \<le> 0"
    using assms by linarith
  then show ?thesis
    unfolding run_executor_def thread_pool_executor_def final_pool_def
    by (simp only: if_False sum.case)
qed

lemma run_executor_Inl:
  "min max_threads (int (length urls)) \<le> 0 \<Longrightarrow>
     run_executor dns sched urls max_threads c = Inl ValueError"
  by (simp add: run_executor_def thread_pool_executor_def)

lemma process_urls_concurrently_Inr:
  assumes "1 \<le> min max_threads (int (length urls))"
  shows "process_urls_concurrently dns sched urls max_threads c =
       Inr (output_counter (final_pool dns (nat (min max_threads (int (length urls)))) sched urls c),
            console (final_pool dns (nat (min max_threads (int (length urls)))) sched urls c))"
  unfolding process_urls_concurrently_def run_executor_Inr [OF assms] by simp

lemma process_urls_concurrently_Inl:
  "min max_threads (int (length urls)) \<le> 0 \<Longrightarrow>
     process_urls_concurrently dns sched urls max_threads c = Inl ValueError"
  by (simp add: process_urls_concurrently_def run_executor_Inl)


lemma counter_get_nonneg: "counter_ok c \<Longrightarrow> 0 \<le> counter_get c x"
  by (auto simp: counter_ok_def counter_get_def split: option.splits dest!: map_of_SomeD)

lemma counter_ok_set:
  assumes "counter_ok c"
  shows "counter_ok (counter_set c ip (counter_get c ip + 1))"
proof -
  have d: "distinct (map fst (counter_set c ip (counter_get c ip + 1)))"
    using assms by (simp add: counter_ok_def counter_set_def distinct_update)
  have "1 \<le> snd e" if e: "e \<in> set (counter_set c ip (counter_get c ip + 1))" for e
  proof -
    from e have "map_of (counter_set c ip (counter_get c ip + 1)) (fst e) = Some (snd e)"
      using map_of_eq_Some_iff [OF d, of "fst e" "snd e"] by simp
    then have "(fst e = ip \<and> snd e = counter_get c ip + 1) \<or> map_of c (fst e) = Some (snd e)"
      by (auto simp: counter_set_def update_conv' split: if_splits)
    then show ?thesis
      using counter_get_nonneg [OF assms, of ip] assms
      by (auto simp: counter_ok_def dest!: map_of_SomeD)
  qed
  with d show ?thesis by (simp add: counter_ok_def)
qed

lemma task_step_counter_ok:
  assumes "pool_inv st" and "i < length (tasks st)" and "tasks st ! i = t"
    and "counter_ok (output_counter st)"
  shows "counter_ok (output_counter (task_step dns w i t st))"
  using assms
  by (induction dns w i t st rule: task_step.induct)
     (auto simp: pool_inv_def Let_def counter_ok_set split: option.splits)

lemma step_counter_ok:
  "pool_inv st \<Longrightarrow> counter_ok (output_counter st) \<Longrightarrow> counter_ok (output_counter (step dns w i st))"
  by (simp add: step_def task_step_counter_ok)

lemma fold_step_counter_ok:
  "pool_inv st \<Longrightarrow> counter_ok (output_counter st) \<Longrightarrow>
     counter_ok (output_counter (fold (step dns w) sched st))"
  by (induction sched arbitrary: st) (auto simp: step_inv step_counter_ok)

lemma round_robin_counter_ok:
  "pool_inv st \<Longrightarrow> counter_ok (output_counter st) \<Longrightarrow>
     counter_ok (output_counter (round_robin dns w st))"
  by (simp add: round_robin_def fold_step_counter_ok)

lemma rounds_counter_ok:
  "pool_inv st \<Longrightarrow> counter_ok (output_counter st) \<Longrightarrow>
     counter_ok (output_counter (rounds dns w k st))"
  by (induction k arbitrary: st) (auto simp: round_robin_inv round_robin_counter_ok)

lemma final_pool_counter_ok:
  assumes "counter_ok c"
  shows "counter_ok (output_counter (final_pool dns w sched urls c))"
proof -
  have "counter_ok (output_counter (initial_pool urls c))"
    using assms by (simp add: initial_pool_def)
  then have "counter_ok (output_counter (fold (step dns w) sched (initial_pool urls c)))"
    by (simp add: fold_step_counter_ok initial_pool_inv)
  then show ?thesis
    by (simp add: final_pool_def run_to_completion_def rounds_counter_ok fold_step_inv
        initial_pool_inv)
qed

lemma sum_count_singletons:
  "(\<Sum>j < length ips. int (count_list [ips ! j] x)) = int (count_list ips x)"
proof (induction ips rule: rev_induct)
  case Nil
  show ?case by simp
next
  case (snoc a ips)
  have "(\<Sum>j < length ips. int (count_list [(ips @ [a]) ! j] x))
          = (\<Sum>j < length ips. int (count_list [ips ! j] x))"
    by (rule sum.cong) (auto simp: nth_append)
  with snoc show ?case by simp
qed

lemma count_list_distinct: "distinct xs \<Longrightarrow> count_list xs x = (if x \<in> set xs then 1 else 0)"
  by (induction xs) auto

text \<open>
  Claim C2. \<open>N\<close> domains, the \<open>j\<close>-th of which resolves to the one address \<open>ips ! j\<close>,
  all addresses distinct, and a thread bound of at least 1. Whatever the interleaving
  of the worker threads (the schedule), the counter after the concurrent phase has
  one entry for each of the \<open>N\<close> addresses, each with count 1, and nothing else, so
  the counts add up to \<open>N\<close>: no increment is lost. With at least one domain the
  phase returns. (With no domain the pool is not built and the counter stays empty.)
\<close>

theorem concurrent_counts_distinct_ips:
  assumes len: "length ips = length urls"
    and dist: "distinct ips"
    and res: "\<forall>j < length urls. recs dns j (urls ! j) = [ips ! j]"
    and thr: "1 \<le> max_threads"
  shows "(let r = process_urls_concurrently dns sched urls max_threads [];
              c' = counter_after [] r
          in distinct (map fst c') \<and> set c' = (\<lambda>ip. (ip, 1)) ` set ips \<and>
             sum_list (map snd c') = int (length urls) \<and>
             (urls \<noteq> [] \<longrightarrow> returned r))"
proof (cases "urls = []")
  case True
  then show ?thesis
    using len by (simp add: process_urls_concurrently_Inl counter_after_def)
next
  case False
  then have "1 \<le> int (length urls)" by (cases urls) simp_all
  then have m: "1 \<le> min max_threads (int (length urls))"
    using thr by linarith
  define w where "w = nat (min max_threads (int (length urls)))"
  define c' where "c' = output_counter (final_pool dns w sched urls [])"
  have w: "0 < w" using m unfolding w_def by linarith
  have r: "process_urls_concurrently dns sched urls max_threads []
             = Inr (c', console (final_pool dns w sched urls []))"
    using process_urls_concurrently_Inr [OF m] by (simp add: w_def c'_def)
  have "counter_ok []" by (simp add: counter_ok_def)
  then have ok: "counter_ok c'"
    unfolding c'_def by (rule final_pool_counter_ok)
  have get: "counter_get c' x = (if x \<in> set ips then 1 else 0)" for x
  proof -
    have "(\<Sum>j < length urls. int (count_list (recs dns j (urls ! j)) x))
            = (\<Sum>j < length ips. int (count_list [ips ! j] x))"
      using res len by (intro sum.cong) auto
    also have "\<dots> = int (count_list ips x)"
      by (rule sum_count_singletons)
    also have "\<dots> = (if x \<in> set ips then 1 else 0)"
      using dist by (simp only: count_list_distinct) simp
    finally have "(\<Sum>j < length urls. int (count_list (recs dns j (urls ! j)) x))
            = (if x \<in> set ips then 1 else 0)" .
    moreover have "counter_get [] x = 0"
      by (simp add: counter_get_def)
    ultimately show ?thesis
      using final_pool_counted [OF w, of dns sched urls "[]" x] by (simp only: c'_def)
  qed
  have mem: "e \<in> set c' \<longleftrightarrow> e \<in> (\<lambda>ip. (ip, 1)) ` set ips" for e
  proof
    assume e: "e \<in> set c'"
    with ok have "map_of c' (fst e) = Some (snd e)" and "1 \<le> snd e"
      using map_of_eq_Some_iff [of c' "fst e" "snd e"] by (simp_all add: counter_ok_def)
    then have "counter_get c' (fst e) = snd e" and "1 \<le> snd e"
      by (simp_all add: counter_get_def)
    with get [of "fst e"] have "fst e \<in> set ips \<and> snd e = 1"
      by (auto split: if_splits)
    then show "e \<in> (\<lambda>ip. (ip, 1)) ` set ips"
      by (cases e) auto
  next
    assume "e \<in> (\<lambda>ip. (ip, 1)) ` set ips"
    then obtain ip where ip: "ip \<in> set ips" and e: "e = (ip, 1)" by auto
    from get [of ip] ip have "map_of c' ip = Some 1"
      by (auto simp: counter_get_def split: option.splits)
    then show "e \<in> set c'"
      using e by (auto dest: map_of_SomeD)
  qed
  have "(\<Sum>j < length urls. int (length (recs dns j (urls ! j)))) = int (length urls)"
    using res by simp
  then have total: "sum_list (map snd c') = int (length urls)"
    using final_pool_summed [OF w, of dns sched urls "[]"] by (simp add: c'_def)
  show ?thesis
    using ok mem total r by (auto simp: counter_after_def returned_def counter_ok_def)
qed

text \<open>A run of two hosts under one interleaving, computed.\<close>

lemma two_hosts_run:
  "process_urls_concurrently two_hosts_dns [1, 0, 0, 1, 1, 0]
       [''http://a.example'', ''b.example''] 2 []
     = Inr ([(''10.0.0.1'', 1), (''10.0.0.2'', 1)],
            [LogRecord ''a.example'' ''10.0.0.1'', LogRecord ''b.example'' ''10.0.0.2''])"
  by code_simp

theorem concurrent_counts_distinct_ips_witness:
  "length [''10.0.0.1'', ''10.0.0.2''] = length [''http://a.example'', ''b.example''] \<and>
   distinct [''10.0.0.1'', ''10.0.0.2''] \<and>
   recs two_hosts_dns 0 ''http://a.example'' = [''10.0.0.1''] \<and>
   recs two_hosts_dns 1 ''b.example'' = [''10.0.0.2''] \<and>
   returned (process_urls_concurrently two_hosts_dns [1, 0, 0, 1, 1, 0]
      [''http://a.example'', ''b.example''] 2 []) \<and>
   set (counter_after [] (process_urls_concurrently two_hosts_dns [1, 0, 0, 1, 1, 0]
      [''http://a.example'', ''b.example''] 2 [])) = {(''10.0.0.1'', 1), (''10.0.0.2'', 1)} \<and>
   sum_list (map snd (counter_after [] (process_urls_concurrently two_hosts_dns [1, 0, 0, 1, 1, 0]
      [''http://a.example'', ''b.example''] 2 []))) = 2"
proof -
  have r0: "recs two_hosts_dns 0 ''http://a.example'' = [''10.0.0.1'']"
    by code_simp
  have r1: "recs two_hosts_dns 1 ''b.example'' = [''10.0.0.2'']"
    by code_simp
  have h: "\<forall>j < length [''http://a.example'', ''b.example''].
             recs two_hosts_dns j ([''http://a.example'', ''b.example''] ! j)
               = [[''10.0.0.1'', ''10.0.0.2''] ! j]"
    using r0 r1 by (simp add: less_Suc_eq)
  have "length [''10.0.0.1'', ''10.0.0.2''] = length [''http://a.example'', ''b.example'']"
    and "distinct [''10.0.0.1'', ''10.0.0.2'']" and "(1::int) \<le> 2"
    by simp_all
  from concurrent_counts_distinct_ips [OF this(1) this(2) h this(3), of "[1, 0, 0, 1, 1, 0]"]
  show ?thesis
    using r0 r1 by (simp add: Let_def)
qed

subsection \<open>The size of the pool\<close>




subsection \<open>Domains that fail\<close>

lemma recs_all_fail: "\<forall>k<5. fails_retriably (dns i) (clean_url url) k \<Longrightarrow> recs dns i url = []"
  by (simp add: recs_def query_dns_all_fail)

lemma step_never_enters:
  assumes "recs dns i url = []" and "i < length (tasks st)"
    and "tasks st ! i = Queued url \<or> tasks st ! i = Finished"
  shows "tasks (step dns w j st) ! i = Queued url \<or> tasks (step dns w j st) ! i = Finished"
proof (cases "j < length (tasks st)")
  case False
  then show ?thesis using assms by (simp add: step_def)
next
  case True
  show ?thesis
  proof (cases "j = i")
    case True
    then show ?thesis
      using assms by (auto simp: step_def Let_def recs_def)
  next
    case False
    have "tasks (task_step dns w j t st) ! i = tasks st ! i" for t
      using False by (induction dns w j t st rule: task_step.induct)
                     (auto simp: Let_def split: option.splits)
    then show ?thesis using assms True by (simp add: step_def)
  qed
qed

lemma fold_step_never_enters:
  "recs dns i url = [] \<Longrightarrow> i < length (tasks st) \<Longrightarrow>
   tasks st ! i = Queued url \<or> tasks st ! i = Finished \<Longrightarrow>
   tasks (fold (step dns w) sched st) ! i = Queued url \<or>
   tasks (fold (step dns w) sched st) ! i = Finished"
proof (induction sched arbitrary: st)
  case Nil
  then show ?case by simp
next
  case (Cons j sched)
  from step_never_enters [OF Cons.prems(1,2,3), of w j]
  have "tasks (step dns w j st) ! i = Queued url \<or> tasks (step dns w j st) ! i = Finished" .
  from Cons.IH [OF Cons.prems(1) _ this] Cons.prems(2) show ?case by simp
qed

lemma step_quiet:
  assumes "\<forall>j < length urls. recs dns j (urls ! j) = []" and "quiet urls c st"
  shows "quiet urls c (step dns w i st)"
proof (cases "i < length (tasks st)")
  case False
  then show ?thesis using assms by (simp add: step_def)
next
  case True
  with assms have i: "i < length urls" and r: "recs dns i (urls ! i) = []"
    and t: "tasks st ! i = Queued (urls ! i) \<or> tasks st ! i = Finished"
    by (auto simp: quiet_def)
  from t show ?thesis
  proof
    assume "tasks st ! i = Finished"
    then show ?thesis using assms(2) True by (simp add: step_def)
  next
    assume "tasks st ! i = Queued (urls ! i)"
    then show ?thesis
      using assms(2) True r
      by (auto simp: step_def quiet_def Let_def recs_def nth_list_update)
  qed
qed

lemma fold_step_quiet:
  "\<forall>j < length urls. recs dns j (urls ! j) = [] \<Longrightarrow> quiet urls c st \<Longrightarrow>
     quiet urls c (fold (step dns w) sched st)"
  by (induction sched arbitrary: st) (auto simp: step_quiet)

lemma rounds_quiet:
  "\<forall>j < length urls. recs dns j (urls ! j) = [] \<Longrightarrow> quiet urls c st \<Longrightarrow>
     quiet urls c (rounds dns w k st)"
  by (induction k arbitrary: st) (auto simp: round_robin_def fold_step_quiet)

lemma final_pool_quiet:
  assumes "\<forall>j < length urls. recs dns j (urls ! j) = []"
  shows "quiet urls c (final_pool dns w sched urls c)"
proof -
  have "quiet urls c (initial_pool urls c)"
    by (simp add: quiet_def initial_pool_def)
  from fold_step_quiet [OF assms this]
  have "quiet urls c (fold (step dns w) sched (initial_pool urls c))" .
  from rounds_quiet [OF assms this] show ?thesis
    by (simp add: final_pool_def run_to_completion_def)
qed

text \<open>
  Claim C5, as the code has it. A domain whose five A lookups all fail with an error
  other than "no answer" costs five sleeps of 2, one after each failed lookup, the
  last one included: 10 in all. Its task goes from queued to finished and is never in
  the locked section, the only place where the counter is changed and a line is
  printed. When every domain of the list fails so, the phase returns the counter it
  was given and has printed nothing.
\<close>

theorem failing_domain_sleeps_and_is_silent:
  assumes "i < length urls"
    and "\<forall>k<5. fails_retriably (dns i) (clean_url (urls ! i)) k"
  shows "fst (query_dns (dns i) (clean_url (urls ! i)) 5 2) = [] \<and>
         total_sleep (snd (query_dns (dns i) (clean_url (urls ! i)) 5 2)) = 10 \<and>
         length (filter is_sleep (snd (query_dns (dns i) (clean_url (urls ! i)) 5 2))) = 5 \<and>
         (tasks (fold (step dns w) sched (initial_pool urls c)) ! i = Queued (urls ! i) \<or>
          tasks (fold (step dns w) sched (initial_pool urls c)) ! i = Finished) \<and>
         ((\<forall>j < length urls. \<forall>k<5. fails_retriably (dns j) (clean_url (urls ! j)) k) \<and>
          1 \<le> max_threads
            \<longrightarrow> process_urls_concurrently dns sched' urls max_threads c = Inr (c, []))"
proof -
  note q = query_dns_all_fail [OF assms(2)]
  have r: "recs dns i (urls ! i) = []"
    using assms(2) by (rule recs_all_fail)
  have 1: "fst (query_dns (dns i) (clean_url (urls ! i)) 5 2) = []"
    by (simp add: q)
  have 2: "total_sleep (snd (query_dns (dns i) (clean_url (urls ! i)) 5 2)) = 10"
    by (simp add: q total_sleep_def)
  have 3: "length (filter is_sleep (snd (query_dns (dns i) (clean_url (urls ! i)) 5 2))) = 5"
    by (simp add: q)
  have 4: "tasks (fold (step dns w) sched (initial_pool urls c)) ! i = Queued (urls ! i) \<or>
           tasks (fold (step dns w) sched (initial_pool urls c)) ! i = Finished"
    by (rule fold_step_never_enters [OF r]) (use assms(1) in \<open>simp_all add: initial_pool_def\<close>)
  have 5: "process_urls_concurrently dns sched' urls max_threads c = Inr (c, [])"
    if all: "\<forall>j < length urls. \<forall>k<5. fails_retriably (dns j) (clean_url (urls ! j)) k"
      and thr: "1 \<le> max_threads"
  proof -
    have "1 \<le> int (length urls)" using assms(1) by (cases urls) simp_all
    then have m: "1 \<le> min max_threads (int (length urls))"
      using thr by linarith
    have "\<forall>j < length urls. recs dns j (urls ! j) = []"
      using all by (simp add: recs_all_fail)
    from final_pool_quiet [OF this] show ?thesis
      unfolding process_urls_concurrently_Inr [OF m] by (simp add: quiet_def)
  qed
  show ?thesis
    using 1 2 3 4 5 by blast
qed

theorem failing_domain_sleeps_and_is_silent_witness:
  "(0::nat) < length [''https://slow.example''] \<and>
   fails_retriably (timeout_dns 0) (clean_url ([''https://slow.example''] ! 0)) 0 \<and>
   fails_retriably (timeout_dns 0) (clean_url ([''https://slow.example''] ! 0)) 1 \<and>
   fails_retriably (timeout_dns 0) (clean_url ([''https://slow.example''] ! 0)) 2 \<and>
   fails_retriably (timeout_dns 0) (clean_url ([''https://slow.example''] ! 0)) 3 \<and>
   fails_retriably (timeout_dns 0) (clean_url ([''https://slow.example''] ! 0)) 4 \<and>
   (1::int) \<le> 4 \<and>
   fst (query_dns (timeout_dns 0) (clean_url ([''https://slow.example''] ! 0)) 5 2) = [] \<and>
   total_sleep (snd (query_dns (timeout_dns 0) (clean_url ([''https://slow.example''] ! 0)) 5 2)) = 10 \<and>
   length (filter is_sleep
     (snd (query_dns (timeout_dns 0) (clean_url ([''https://slow.example''] ! 0)) 5 2))) = 5 \<and>
   tasks (fold (step timeout_dns 1) [0] (initial_pool [''https://slow.example''] [(''10.0.0.1'', 7)])) ! 0
     = Finished \<and>
   process_urls_concurrently timeout_dns [0, 0] [''https://slow.example''] 4 [(''10.0.0.1'', 7)]
     = Inr ([(''10.0.0.1'', 7)], [])"
proof -
  have f: "fails_retriably (timeout_dns j) d k" for j d k
    by (simp add: fails_retriably_def timeout_dns_def timeout_resolver_def)
  have h1: "(0::nat) < length [''https://slow.example'']" by simp
  have h2: "\<forall>k<5. fails_retriably (timeout_dns 0) (clean_url ([''https://slow.example''] ! 0)) k"
    using f by simp
  have h3: "\<forall>j < length [''https://slow.example'']. \<forall>k<5.
              fails_retriably (timeout_dns j) (clean_url ([''https://slow.example''] ! j)) k"
    using f by simp
  have t: "tasks (fold (step timeout_dns 1) [0]
               (initial_pool [''https://slow.example''] [(''10.0.0.1'', 7)])) ! 0 \<noteq> Queued u" for u
    by code_simp
  from failing_domain_sleeps_and_is_silent [where i = 0 and urls = "[''https://slow.example'']"
      and dns = timeout_dns and w = 1 and sched = "[0]" and c = "[(''10.0.0.1'', 7)]"
      and max_threads = 4 and sched' = "[0, 0]"]
  show ?thesis
    using f h1 h2 h3 t by auto
qed

text \<open>
  Claim C5 as stated fails on the length of the sleeps: there are five of them, not
  four, and they add up to 10, not 8.
\<close>

theorem retry_sleep_total_counterexample:
  "total_sleep (snd (query_dns timeout_resolver ''slow.example'' 5 2)) = 10 \<and>
   total_sleep (snd (query_dns timeout_resolver ''slow.example'' 5 2)) \<noteq> 8 \<and>
   length (filter is_sleep (snd (query_dns timeout_resolver ''slow.example'' 5 2))) = 5 \<and>
   length (filter is_sleep (snd (query_dns timeout_resolver ''slow.example'' 5 2))) \<noteq> 4"
  by (simp add: query_dns_def upt_rec timeout_resolver_def total_sleep_def)

section \<open>Properties of the report writer\<close>

lemma write_entries_chunks:
  "\<exists>ws. prefix ws (filter above_two es) \<and>
        snd (write_entries wr k es acc) = acc @ map format_line ws"
proof (induction es arbitrary: k acc)
  case Nil
  show ?case by simp
next
  case (Cons e es)
  obtain ip cnt where e: "e = (ip, cnt)" by (cases e)
  show ?case
  proof (cases "2 < cnt")
    case False
    with Cons [of k acc] e show ?thesis by (simp add: above_two_def)
  next
    case True
    show ?thesis
    proof (cases "wr k")
      case (Some err)
      with True e have "snd (write_entries wr k (e # es) acc) = acc @ map format_line []"
        by simp
      moreover have "prefix [] (filter above_two (e # es))"
        by simp
      ultimately show ?thesis by blast
    next
      case None
      from Cons [of "Suc k" "acc @ [format_line (ip, cnt)]"] obtain ws
        where ws: "prefix ws (filter above_two es)"
          and s: "snd (write_entries wr (Suc k) es (acc @ [format_line (ip, cnt)]))
                    = (acc @ [format_line (ip, cnt)]) @ map format_line ws"
        by blast
      have "prefix (e # ws) (filter above_two (e # es))"
        using ws True e by (simp add: above_two_def)
      moreover have "snd (write_entries wr k (e # es) acc) = acc @ map format_line (e # ws)"
        using s True None e by simp
      ultimately show ?thesis by blast
    qed
  qed
qed

lemma write_entries_error:
  "fst (write_entries wr k es acc) = first_error wr k (length (filter above_two es))"
  by (induction es arbitrary: k acc) (auto simp: above_two_def split: option.splits)

lemma write_entries_none:
  "\<forall>e \<in> set es. snd e \<le> 2 \<Longrightarrow> write_entries wr k es acc = (None, acc)"
  by (induction es arbitrary: k acc) auto

lemma set_sorted_desc [simp]: "set (sorted_desc c) = set c"
  by (simp add: sorted_desc_def)

lemma mset_sorted_desc [simp]: "mset (sorted_desc c) = mset c"
  by (simp add: sorted_desc_def)

lemma length_filter_sorted_desc:
  "length (filter P (sorted_desc c)) = length (filter P c)"
proof -
  have "mset (filter P (sorted_desc c)) = mset (filter P c)"
    by simp
  then show ?thesis by (metis size_mset)
qed

lemma sorted_desc_descending: "sorted_wrt (\<lambda>a b. snd b \<le> snd a) (sorted_desc c)"
proof -
  have "sorted (map snd (sort_key snd (rev c)))"
    by simp
  then have "sorted_wrt (\<lambda>a b. snd a \<le> snd b) (sort_key snd (rev c))"
    by (simp add: sorted_map)
  then show ?thesis
    by (simp add: sorted_desc_def sorted_wrt_rev)
qed

lemma sorted_wrt_prefix: "prefix ws xs \<Longrightarrow> sorted_wrt P xs \<Longrightarrow> sorted_wrt P ws"
  by (auto simp: prefix_def sorted_wrt_append)

lemma report_written:
  assumes "open_w os output_file = None"
  shows "\<exists>ws. fst (write_sorted_output os files c output_file) output_file
                 = Some (map format_line ws) \<and>
              prefix ws (filter above_two (sorted_desc c))"
proof -
  from write_entries_chunks [of "sorted_desc c" "write_call os" 0 "[]"] obtain ws
    where ws: "prefix ws (filter above_two (sorted_desc c))"
      and s: "snd (write_entries (write_call os) 0 (sorted_desc c) []) = map format_line ws"
    by auto
  have "fst (write_sorted_output os files c output_file) output_file = Some (map format_line ws)"
    using assms s
    by (cases "write_entries (write_call os) 0 (sorted_desc c) []")
       (auto simp: write_sorted_output_def Let_def split: option.splits)
  with ws show ?thesis by blast
qed

lemma report_untouched:
  "open_w os output_file = Some e \<Longrightarrow>
     write_sorted_output os files c output_file = (files, [WriteFailed e])"
  by (simp add: write_sorted_output_def)

text \<open>
  Claim C7. When the output file is opened, its content after the writer is the
  rendering of a list of entries of the snapshot, every one with a count greater
  than 2. When it cannot be opened, no file is changed.
\<close>

theorem report_counts_above_two:
  "(open_w os output_file = None \<longrightarrow>
      (\<exists>ws. fst (write_sorted_output os files c output_file) output_file
                = Some (map format_line ws) \<and>
             set ws \<subseteq> set c \<and> (\<forall>e \<in> set ws. 2 < snd e))) \<and>
   (open_w os output_file \<noteq> None \<longrightarrow>
      fst (write_sorted_output os files c output_file) = files)"
proof (intro conjI impI)
  assume "open_w os output_file = None"
  from report_written [OF this, of files c] obtain ws
    where f: "fst (write_sorted_output os files c output_file) output_file
                = Some (map format_line ws)"
      and p: "prefix ws (filter above_two (sorted_desc c))"
    by blast
  from p have "set ws \<subseteq> set (filter above_two (sorted_desc c))"
    by (rule set_mono_prefix)
  then have "set ws \<subseteq> set c \<and> (\<forall>e \<in> set ws. 2 < snd e)"
    by (auto simp: above_two_def)
  with f show "\<exists>ws. fst (write_sorted_output os files c output_file) output_file
                = Some (map format_line ws) \<and>
             set ws \<subseteq> set c \<and> (\<forall>e \<in> set ws. 2 < snd e)"
    by blast
next
  assume "open_w os output_file \<noteq> None"
  then show "fst (write_sorted_output os files c output_file) = files"
    by (auto simp: report_untouched)
qed

lemma sample_report:
  "fst (write_sorted_output writable_os old_files sample_counter ''report.txt'') ''report.txt''
     = Some (map format_line [(''10.0.0.3'', 5), (''10.0.0.1'', 3), (''10.0.0.5'', 3)])"
  by (simp add: write_sorted_output_def writable_os_def sample_counter_def sorted_desc_def)

theorem report_counts_above_two_witness:
  "open_w writable_os ''report.txt'' = None \<and>
   (\<exists>ws. fst (write_sorted_output writable_os old_files sample_counter ''report.txt'') ''report.txt''
            = Some (map format_line ws) \<and>
          set ws \<subseteq> set sample_counter \<and> list_all (\<lambda>e. 2 < snd e) ws) \<and>
   fst (write_sorted_output writable_os old_files sample_counter ''report.txt'') ''report.txt''
     = Some (map format_line [(''10.0.0.3'', 5), (''10.0.0.1'', 3), (''10.0.0.5'', 3)]) \<and>
   open_w readonly_os ''report.txt'' \<noteq> None \<and>
   fst (write_sorted_output readonly_os old_files sample_counter ''report.txt'') = old_files"
proof -
  have h: "open_w writable_os ''report.txt'' = None"
    by (simp add: writable_os_def)
  have h': "open_w readonly_os ''report.txt'' \<noteq> None"
    by (simp add: readonly_os_def)
  from report_counts_above_two [of writable_os "''report.txt''" old_files sample_counter]
    report_counts_above_two [of readonly_os "''report.txt''" old_files sample_counter] h h'
  show ?thesis
    using sample_report by (simp add: list_all_iff)
qed

text \<open>
  Claim C8. When the output file is opened, its content after the writer is the
  rendering of a list of entries of the snapshot in which an earlier entry never has
  a smaller count than a later one.
\<close>

theorem report_counts_descending:
  "open_w os output_file = None \<longrightarrow>
     (\<exists>ws. fst (write_sorted_output os files c output_file) output_file
               = Some (map format_line ws) \<and>
            set ws \<subseteq> set c \<and> sorted_wrt (\<lambda>a b. snd b \<le> snd a) ws)"
proof
  assume "open_w os output_file = None"
  from report_written [OF this, of files c] obtain ws
    where f: "fst (write_sorted_output os files c output_file) output_file
                = Some (map format_line ws)"
      and p: "prefix ws (filter above_two (sorted_desc c))"
    by blast
  from p have "set ws \<subseteq> set (filter above_two (sorted_desc c))"
    by (rule set_mono_prefix)
  then have 1: "set ws \<subseteq> set c" by auto
  have "sorted_wrt (\<lambda>a b. snd b \<le> snd a) (filter above_two (sorted_desc c))"
    by (rule sorted_wrt_filter) (rule sorted_desc_descending)
  with p have "sorted_wrt (\<lambda>a b. snd b \<le> snd a) ws"
    by (rule sorted_wrt_prefix)
  with f 1 show "\<exists>ws. fst (write_sorted_output os files c output_file) output_file
               = Some (map format_line ws) \<and>
            set ws \<subseteq> set c \<and> sorted_wrt (\<lambda>a b. snd b \<le> snd a) ws"
    by blast
qed

theorem report_counts_descending_witness:
  "open_w writable_os ''report.txt'' = None \<and>
   (\<exists>ws. fst (write_sorted_output writable_os old_files sample_counter ''report.txt'') ''report.txt''
            = Some (map format_line ws) \<and>
          set ws \<subseteq> set sample_counter \<and> sorted_wrt (\<lambda>a b. snd b \<le> snd a) ws) \<and>
   sorted_desc sample_counter
     = [(''10.0.0.3'', 5), (''10.0.0.1'', 3), (''10.0.0.5'', 3), (''10.0.0.4'', 2), (''10.0.0.2'', 1)]"
proof -
  have h: "open_w writable_os ''report.txt'' = None"
    by (simp add: writable_os_def)
  have s: "sorted_desc sample_counter
     = [(''10.0.0.3'', 5), (''10.0.0.1'', 3), (''10.0.0.5'', 3), (''10.0.0.4'', 2), (''10.0.0.2'', 1)]"
    by (simp add: sample_counter_def sorted_desc_def)
  from report_counts_descending [of writable_os "''report.txt''" old_files sample_counter] h s
  show ?thesis by blast
qed

text \<open>
  Claim C10. When no entry of the snapshot has a count greater than 2 (the empty
  snapshot included) and the output file can be opened, the writer leaves that file
  empty, whatever it held before, and prints nothing.
\<close>

theorem report_empty_truncates:
  assumes "\<forall>e \<in> set c. snd e \<le> 2" and "open_w os output_file = None"
  shows "write_sorted_output os files c output_file = (files(output_file \<mapsto> []), [])"
proof -
  have "\<forall>e \<in> set (sorted_desc c). snd e \<le> 2"
    using assms(1) by simp
  from write_entries_none [OF this] show ?thesis
    using assms(2) by (simp add: write_sorted_output_def)
qed

theorem report_empty_truncates_witness:
  "snd (''10.0.0.1'', 2::int) \<le> 2 \<and> snd (''10.0.0.2'', 1::int) \<le> 2 \<and>
   open_w writable_os ''report.txt'' = None \<and>
   old_files ''report.txt'' = Some [''stale line''] \<and>
   fst (write_sorted_output writable_os old_files low_counter ''report.txt'') ''report.txt'' = Some [] \<and>
   snd (write_sorted_output writable_os old_files low_counter ''report.txt'') = [] \<and>
   fst (write_sorted_output writable_os old_files [] ''report.txt'') ''report.txt'' = Some []"
proof -
  have h1: "\<forall>e \<in> set low_counter. snd e \<le> 2"
    by (simp add: low_counter_def)
  have h0: "\<forall>e \<in> set ([] :: counter). snd e \<le> 2"
    by simp
  have h2: "open_w writable_os ''report.txt'' = None"
    by (simp add: writable_os_def)
  from report_empty_truncates [OF h1 h2, of old_files] report_empty_truncates [OF h0 h2, of old_files]
  show ?thesis
    using h2 by (simp add: old_files_def)
qed

section \<open>Properties of the run\<close>

lemma write_sorted_output_msgs:
  "snd (write_sorted_output os files c output_file) =
     (case report_failure os c output_file of None \<Rightarrow> [] | Some e \<Rightarrow> [WriteFailed e])"
proof (cases "open_w os output_file")
  case (Some e)
  then show ?thesis by (simp add: write_sorted_output_def report_failure_def)
next
  case None
  obtain r chunks where w: "write_entries (write_call os) 0 (sorted_desc c) [] = (r, chunks)"
    by (cases "write_entries (write_call os) 0 (sorted_desc c) []")
  from write_entries_error [of "write_call os" 0 "sorted_desc c" "[]"] w
  have r: "first_error (write_call os) 0 (length (filter above_two c)) = r"
    by (simp add: length_filter_sorted_desc)
  show ?thesis
    unfolding write_sorted_output_def report_failure_def Let_def None w r
    by (cases r) simp_all
qed

text \<open>
  The failures of the report writer itself. Once the directory step of line 99 and the
  concurrent phase have returned, every failure of the writer, be it the opening of
  the output file or one of its writes, is printed as one line, the process does not
  stop on it, and the run ends with its three completion messages and status 0.
\<close>

lemma write_failure_reported_and_run_completes:
  assumes "ensure_directory_exists os output = Inr made"
    and "process_urls_concurrently dns sched urls threads [] = Inr (c, log)"
  shows "status (main os dns sched files (Inr urls) output threads) = Exit0 \<and>
         printed (main os dns sched files (Inr urls) output threads) =
           log @ (case report_failure os c output of None \<Rightarrow> [] | Some e \<Rightarrow> [WriteFailed e])
               @ [TaskDone, SavedTo output, Elapsed]"
proof -
  obtain files' msgs where w: "write_sorted_output os files c output = (files', msgs)"
    by (cases "write_sorted_output os files c output")
  with write_sorted_output_msgs [of os files c "output"]
  have "msgs = (case report_failure os c output of None \<Rightarrow> [] | Some e \<Rightarrow> [WriteFailed e])"
    by simp
  then show ?thesis
    using assms w by (simp add: main_def)
qed

text \<open>Two such runs: the output file cannot be opened; its first write fails.\<close>

lemma write_failure_reported_and_run_completes_example:
  "ensure_directory_exists readonly_os ''report.txt'' = Inr [] \<and>
   process_urls_concurrently two_hosts_dns [] [''a.example''] 1 []
     = Inr ([(''10.0.0.1'', 1)], [LogRecord ''a.example'' ''10.0.0.1'']) \<and>
   report_failure readonly_os [(''10.0.0.1'', 1)] ''report.txt'' = Some PermissionError \<and>
   status (main readonly_os two_hosts_dns [] old_files (Inr [''a.example'']) ''report.txt'' 1) = Exit0 \<and>
   printed (main readonly_os two_hosts_dns [] old_files (Inr [''a.example'']) ''report.txt'' 1) =
     [LogRecord ''a.example'' ''10.0.0.1'', WriteFailed PermissionError,
      TaskDone, SavedTo ''report.txt'', Elapsed] \<and>
   ensure_directory_exists full_disk_os ''out/report.txt'' = Inr [] \<and>
   process_urls_concurrently two_hosts_dns [0, 1, 2, 1]
       [''a.example'', ''http://a.example'', ''https://a.example''] 2 []
     = Inr ([(''10.0.0.1'', 3)],
            [LogRecord ''a.example'' ''10.0.0.1'', LogRecord ''a.example'' ''10.0.0.1'',
             LogRecord ''a.example'' ''10.0.0.1'']) \<and>
   report_failure full_disk_os [(''10.0.0.1'', 3)] ''out/report.txt'' = Some OSError \<and>
   status (main full_disk_os two_hosts_dns [0, 1, 2, 1] old_files
             (Inr [''a.example'', ''http://a.example'', ''https://a.example''])
             ''out/report.txt'' 2) = Exit0 \<and>
   printed (main full_disk_os two_hosts_dns [0, 1, 2, 1] old_files
             (Inr [''a.example'', ''http://a.example'', ''https://a.example''])
             ''out/report.txt'' 2) =
     [LogRecord ''a.example'' ''10.0.0.1'', LogRecord ''a.example'' ''10.0.0.1'',
      LogRecord ''a.example'' ''10.0.0.1'', WriteFailed OSError,
      TaskDone, SavedTo ''out/report.txt'', Elapsed]"
proof -
  have d1: "ensure_directory_exists readonly_os ''report.txt'' = Inr []"
    by (simp add: ensure_directory_exists_def dirname_def readonly_os_def)
  have p1: "process_urls_concurrently two_hosts_dns [] [''a.example''] 1 []
     = Inr ([(''10.0.0.1'', 1)], [LogRecord ''a.example'' ''10.0.0.1''])"
    by code_simp
  have f1: "report_failure readonly_os [(''10.0.0.1'', 1)] ''report.txt'' = Some PermissionError"
    by (simp add: report_failure_def readonly_os_def)
  have d2: "ensure_directory_exists full_disk_os ''out/report.txt'' = Inr []"
    by (simp add: ensure_directory_exists_def dirname_def full_disk_os_def)
  have p2: "process_urls_concurrently two_hosts_dns [0, 1, 2, 1]
       [''a.example'', ''http://a.example'', ''https://a.example''] 2 []
     = Inr ([(''10.0.0.1'', 3)],
            [LogRecord ''a.example'' ''10.0.0.1'', LogRecord ''a.example'' ''10.0.0.1'',
             LogRecord ''a.example'' ''10.0.0.1''])"
    by code_simp
  have f2: "report_failure full_disk_os [(''10.0.0.1'', 3)] ''out/report.txt'' = Some OSError"
    by (simp add: report_failure_def full_disk_os_def above_two_def)
  from write_failure_reported_and_run_completes [OF d1 p1, of old_files]
    write_failure_reported_and_run_completes [OF d2 p2, of old_files]
  show ?thesis
    using d1 p1 f1 d2 p2 f2 by simp
qed

text \<open>
  Claim C9. A failure of the report step, the making of the destination directory
  included, is to be printed and the run is to go on to its completion messages, as
  the read of lines 91-96 and the writer of lines 71-80 do with their failures. The
  directory step does not: line 99 calls \<open>ensure_directory_exists\<close> outside every
  \<^verbatim>\<open>try\<close>. With the output path \<^verbatim>\<open>out/report.txt\<close>, the directory
  \<^verbatim>\<open>out\<close> missing and \<^verbatim>\<open>os.makedirs\<close> raising, the exception leaves
  \<open>main\<close>: nothing is printed and the run ends there, without its completion
  messages.
\<close>

theorem makedirs_failure_uncaught:
  "ensure_directory_exists locked_dir_os ''out/report.txt'' = Inl PermissionError \<and>
   status (main locked_dir_os two_hosts_dns [] old_files (Inr [''a.example'']) ''out/report.txt'' 4)
     = Uncaught PermissionError \<and>
   printed (main locked_dir_os two_hosts_dns [] old_files (Inr [''a.example'']) ''out/report.txt'' 4)
     = []"
  by (simp add: main_def ensure_directory_exists_def dirname_def locked_dir_os_def)

end
